theory Spec2Isabelle
  imports Main "HOL-Library.Sublist" "HOL-Library.Word"
begin

text \<open>
  A shallow embedding of \<open>drivers/scsi/sg/sg_race_trigger.c\<close>, the reproducer of the
  bogus elapsed time that \<open>/proc/scsi/sg/debug\<close> shows under concurrent SG_IO load:
  the parser of the debug lines (\<open>parse_elapsed\<close>, \<open>get_opcode\<close>), the bug log
  (\<open>log_debug_snapshot\<close>), the monitor thread (\<open>monitor_worker\<close>) and \<open>main\<close>.
  Strings are lists of characters, C integers are mathematical integers (with a proof
  that the anomaly counter stays below \<open>2^31\<close>), undefined behaviour and a run that
  does not end are results of their own, and everything outside the program (the feed,
  signals, whether files open) is a parameter.
\<close>

section \<open>C library primitives used by the program\<close>

text \<open>
  A C string is modelled by the list of its characters before the terminating NUL.
  \<open>strstr\<close> returns the suffix of the haystack that starts at the first occurrence of the
  needle (the pointer the C function returns), \<open>strchr\<close> the offset of the first
  occurrence of a character.
\<close>

fun strstr :: "string \<Rightarrow> string \<Rightarrow> string option" where
  "strstr [] needle = (if needle = [] then Some [] else None)"
| "strstr (c # cs) needle =
     (if prefix needle (c # cs) then Some (c # cs) else strstr cs needle)"

fun strchr :: "string \<Rightarrow> char \<Rightarrow> nat option" where
  "strchr [] c = None"
| "strchr (x # xs) c = (if x = c then Some 0 else map_option Suc (strchr xs c))"

definition isspace_c :: "char \<Rightarrow> bool" where
  "isspace_c c \<longleftrightarrow> c = CHR '' '' \<or> (9 \<le> (of_char c :: nat) \<and> (of_char c :: nat) \<le> 13)"

definition isdigit_c :: "char \<Rightarrow> bool" where
  "isdigit_c c \<longleftrightarrow> 48 \<le> (of_char c :: nat) \<and> (of_char c :: nat) \<le> 57"

definition digit_val :: "char \<Rightarrow> int" where
  "digit_val c = int (of_char c) - 48"

definition decimal :: "string \<Rightarrow> int" where
  "decimal ds = foldl (\<lambda>a c. 10 * a + digit_val c) 0 ds"

text \<open>
  The \<open>%d\<close> conversion of glibc's scanf family on LP64 Linux (the only platform that has
  the \<open>/proc/scsi/sg/debug\<close> feed): the digits are converted by \<open>strtol\<close>, which
  saturates at the bounds of \<open>long\<close>, and the result is stored through an \<open>int *\<close>,
  which keeps the low 32 bits. ISO C leaves a value outside \<open>int\<close> undefined.
\<close>

definition strtol_sat :: "int \<Rightarrow> int" where
  "strtol_sat v = max (- (2 ^ 63)) (min (2 ^ 63 - 1) v)"

definition store_int :: "int \<Rightarrow> int" where
  "store_int v = sint (word_of_int (strtol_sat v) :: 32 word)"

text \<open>
  One \<open>%d\<close> directive: skip white space, read an optional sign and at least one
  decimal digit. \<open>None\<close> is a failed conversion; otherwise the stored value and the
  unread input.
\<close>

definition scan_d :: "string \<Rightarrow> (int \<times> string) option" where
  "scan_d s =
     (let s1 = dropWhile isspace_c s;
          neg = (s1 \<noteq> [] \<and> hd s1 = CHR ''-'');
          s2 = (if s1 \<noteq> [] \<and> (hd s1 = CHR ''-'' \<or> hd s1 = CHR ''+'') then tl s1 else s1);
          ds = takeWhile isdigit_c s2
      in if ds = [] then None
         else Some (store_int (if neg then - decimal ds else decimal ds),
                    dropWhile isdigit_c s2))"

text \<open>
  One \<open>%s\<close> directive: skip white space, read the characters up to the next white space.
  \<open>None\<close> when the input ends before any character is read.
\<close>

definition scan_s :: "string \<Rightarrow> string option" where
  "scan_s s =
     (let tok = takeWhile (\<lambda>c. \<not> isspace_c c) (dropWhile isspace_c s)
      in if tok = [] then None else Some tok)"

definition match_literal :: "string \<Rightarrow> string \<Rightarrow> string option" where
  "match_literal lit s = (if prefix lit s then Some (drop (length lit) s) else None)"

text \<open>
  The value of \<open>sscanf(p, "t_o/elap=%d/%dms", &timeout, &elapsed)\<close>: the return value
  (\<open>EOF\<close>, 0, 1 or 2) together with the integers assigned. The trailing \<open>ms\<close> of the
  format is matched after the last conversion and changes neither.
\<close>

datatype scan_result = Scan_EOF | Scan_0 | Scan_1 int | Scan_2 int int

definition sscanf_t_o_elap :: "string \<Rightarrow> scan_result" where
  "sscanf_t_o_elap p =
     (case match_literal ''t_o/elap='' p of
        None \<Rightarrow> (if prefix p ''t_o/elap='' then Scan_EOF else Scan_0)
      | Some r \<Rightarrow>
          (case scan_d r of
             None \<Rightarrow> (if dropWhile isspace_c r = [] then Scan_EOF else Scan_0)
           | Some (timeout, r1) \<Rightarrow>
               (case match_literal ''/'' r1 of
                  None \<Rightarrow> Scan_1 timeout
                | Some r2 \<Rightarrow>
                    (case scan_d r2 of
                       None \<Rightarrow> Scan_1 timeout
                     | Some (elapsed, r3) \<Rightarrow> Scan_2 timeout elapsed))))"

section \<open>StatusParser: \<open>parse_elapsed\<close> and \<open>get_opcode\<close>\<close>

definition parse_elapsed :: "string \<Rightarrow> int" where
  "parse_elapsed line =
     (case strstr line ''t_o/elap='' of
        Some p \<Rightarrow>
          (case sscanf_t_o_elap p of
             Scan_2 timeout elapsed \<Rightarrow> elapsed
           | _ \<Rightarrow> - 1)
      | None \<Rightarrow> - 1)"

text \<open>
  \<open>get_opcode\<close> writes into a buffer of the caller (\<open>char opcode[8]\<close>, not initialised,
  in \<open>monitor_worker\<close>). The \<open>%s\<close> has no field width, so a token of \<open>cap\<close> characters
  or more is written past the end of the buffer; and when the input ends right after
  \<open>op=0x\<close> nothing is written and the loop reads the uninitialised buffer. Both are
  undefined behaviour in C and are results of their own here.
\<close>

datatype error = Buffer_overflow | Uninitialised_read | Feed_script_exhausted

definition non_hex :: "char \<Rightarrow> bool" where
  "non_hex c \<longleftrightarrow>
     (of_char c :: nat) < 48 \<or> ((of_char c :: nat) > 57 \<and> (of_char c :: nat) < 97)
       \<or> (of_char c :: nat) > 102"

function trunc_loop :: "nat \<Rightarrow> string \<Rightarrow> string" where
  "trunc_loop i opcode =
     (if i < length opcode
      then (if non_hex (opcode ! i) then take i opcode else trunc_loop (Suc i) opcode)
      else opcode)"
  by pat_completeness auto
termination
  by (relation "measure (\<lambda>(i, opcode). length opcode - i)") auto

definition get_opcode :: "nat \<Rightarrow> string \<Rightarrow> error + string" where
  "get_opcode cap line =
     (case strstr line ''op=0x'' of
        Some p \<Rightarrow>
          (case match_literal ''op=0x'' p of
             None \<Rightarrow> Inl Uninitialised_read
           | Some r \<Rightarrow>
               (case scan_s r of
                  None \<Rightarrow> Inl Uninitialised_read
                | Some tok \<Rightarrow>
                    if cap < length tok + 1 then Inl Buffer_overflow
                    else Inr (trunc_loop 0 tok)))
      | None \<Rightarrow> if cap < 3 then Inl Buffer_overflow else Inr ''??'')"

section \<open>Shared state, bug log and the status feed\<close>

text \<open>
  The globals \<open>keep_running\<close> and \<open>bugs_found\<close>, the monitor's \<open>iteration\<close> and the
  locals of one monitor pass that record the first anomaly of the pass. The bug log file
  is the list of the record blocks appended to it; what the program prints and how long
  it sleeps is the list \<open>console\<close>. \<open>bugs_found\<close> is only written by the monitor thread
  (under the mutex) and read by \<open>main\<close> after joining it.

  \<open>examined\<close> is a history variable, not program state: it records every line on which
  \<open>parse_elapsed\<close> was called and the anomaly test evaluated, with the value tested.
\<close>

record log_record =
  log_iteration :: int
  log_elapsed :: int
  log_opcode :: string
  log_snapshot :: string

datatype event =
    Perror_fopen
  | Sleep nat
  | Usleep nat
  | Warn_log_open
  | Warn_log_create
  | Bogus_report int int string string
  | Progress int int
  | Device_not_found
  | Summary int

record mstate =
  keep_running :: int
  bugs_found :: int
  iteration :: int
  found_bug :: bool
  bug_elapsed :: int
  bug_opcode :: string
  log_header :: bool
  bug_log :: "log_record list"
  console :: "event list"
  examined :: "(string \<times> int) list"

definition TEST_ITERATIONS :: int where
  "TEST_ITERATIONS = 1000"

definition initial_state :: mstate where
  "initial_state =
     \<lparr>keep_running = 1, bugs_found = 0, iteration = 0, found_bug = False, bug_elapsed = 0,
      bug_opcode = [], log_header = False, bug_log = [], console = [], examined = []\<rparr>"

text \<open>The signal handler installed for SIGINT and SIGTERM.\<close>

definition cleanup :: "int \<Rightarrow> mstate \<Rightarrow> mstate" where
  "cleanup sig st = st\<lparr>keep_running := 0\<rparr>"

text \<open>
  \<open>log_debug_snapshot\<close>: \<open>fopen_ok\<close> is whether the environment lets the log file be
  opened for appending. The time stamp of the record is not modelled.
\<close>

definition log_debug_snapshot ::
    "bool \<Rightarrow> int \<Rightarrow> int \<Rightarrow> string \<Rightarrow> string \<Rightarrow> mstate \<Rightarrow> mstate" where
  "log_debug_snapshot fopen_ok iter elapsed opcode debug_content st =
     (if \<not> fopen_ok then st\<lparr>console := console st @ [Warn_log_open]\<rparr>
      else st\<lparr>bug_log := bug_log st @
                 [\<lparr>log_iteration = iter, log_elapsed = elapsed, log_opcode = opcode,
                   log_snapshot = debug_content\<rparr>]\<rparr>)"

text \<open>
  \<open>fgets(line, n, fp)\<close> on the unread rest of the feed: at most \<open>n - 1\<close> characters, up to
  and including the first newline; \<open>None\<close> (a null pointer) at end of file.
\<close>

definition fgets :: "nat \<Rightarrow> string \<Rightarrow> (string \<times> string) option" where
  "fgets n s =
     (if s = [] then None
      else let k = (case strchr (take (n - 1) s) (CHR 0x0A) of
                      Some i \<Rightarrow> Suc i
                    | None \<Rightarrow> min (n - 1) (length s))
           in Some (take k s, drop k s))"

definition strlen :: "string \<Rightarrow> nat" where
  "strlen s = length (takeWhile (\<lambda>c. c \<noteq> CHR 0x00) s)"

text \<open>
  The loop that saves the feed into \<open>debug_buffer\<close> (65536 bytes, zeroed): \<open>buf\<close> is the
  part of the buffer written so far, \<open>buf_pos\<close> its length. \<open>fgets\<close> is called before
  \<open>buf_pos\<close> is tested, and \<open>strlen(line)\<close> bytes of the chunk are copied.
\<close>

function capture_loop :: "string \<Rightarrow> string \<Rightarrow> string" where
  "capture_loop feed buf =
     (case fgets 512 feed of
        None \<Rightarrow> buf
      | Some (line, rest) \<Rightarrow>
          if length buf < 65536 - 512
          then capture_loop rest (buf @ take (strlen line) line)
          else buf)"
  by pat_completeness auto
termination
proof (relation "measure (\<lambda>(feed, buf). length feed)")
  show "wf (measure (\<lambda>(feed, buf). length feed))"
    by simp
next
  fix feed buf :: string and x2 line rest
  assume "fgets 512 feed = Some x2" and "(line, rest) = x2"
  then have "length rest < length feed"
    by (cases feed) (auto simp: fgets_def Let_def split: option.splits if_splits)
  then show "((rest, buf @ take (strlen line) line), feed, buf)
               \<in> measure (\<lambda>(feed, buf). length feed)"
    by simp
qed

definition capture :: "string \<Rightarrow> string" where
  "capture feed = capture_loop feed []"

section \<open>Monitor\<close>

text \<open>
  The body of the line loop for one line that fits \<open>saved_line\<close>. \<open>fs k\<close> says whether
  the \<open>k\<close>-th call of \<open>log_debug_snapshot\<close> of the run can open the log file.
\<close>

definition check_line :: "(nat \<Rightarrow> bool) \<Rightarrow> string \<Rightarrow> string \<Rightarrow> mstate \<Rightarrow> error + mstate" where
  "check_line fs debug_buffer saved_line st =
     (if strstr saved_line ''elap='' \<noteq> None then
        (let elapsed = parse_elapsed saved_line;
             st0 = st\<lparr>examined := examined st @ [(saved_line, elapsed)]\<rparr>
         in if elapsed < 0 \<or> elapsed > 10000 then
              (case get_opcode 8 saved_line of
                 Inl err \<Rightarrow> Inl err
               | Inr opcode \<Rightarrow>
                   (let st1 = (if \<not> found_bug st0
                               then st0\<lparr>found_bug := True, bug_elapsed := elapsed,
                                        bug_opcode := opcode\<rparr>
                               else st0);
                        st2 = st1\<lparr>bugs_found := bugs_found st1 + 1\<rparr>;
                        st3 = log_debug_snapshot (fs (nat (bugs_found st2))) (iteration st2)
                                elapsed opcode debug_buffer st2
                    in Inr (st3\<lparr>console := console st3 @
                              [Bogus_report (iteration st3) elapsed opcode saved_line]\<rparr>)))
            else Inr st0)
      else Inr st)"

function scan_lines :: "(nat \<Rightarrow> bool) \<Rightarrow> string \<Rightarrow> string \<Rightarrow> mstate \<Rightarrow> error + mstate" where
  "scan_lines fs debug_buffer line_ptr st =
     (if line_ptr = [] then Inr st
      else case strchr line_ptr (CHR 0x0A) of
             None \<Rightarrow> Inr st
           | Some line_len \<Rightarrow>
               (case (if line_len < 512
                      then check_line fs debug_buffer (take line_len line_ptr) st
                      else Inr st) of
                  Inl err \<Rightarrow> Inl err
                | Inr st' \<Rightarrow> scan_lines fs debug_buffer (drop (Suc line_len) line_ptr) st'))"
  by pat_completeness auto
termination
  by (relation "measure (\<lambda>(fs, debug_buffer, line_ptr, st). length line_ptr)")
     (auto simp: neq_Nil_conv)

text \<open>
  One pass of the monitor's \<open>while\<close> loop. \<open>feed\<close> is \<open>None\<close> when
  \<open>fopen("/proc/scsi/sg/debug")\<close> fails, otherwise what the file yields during this pass.
\<close>

definition monitor_pass :: "(nat \<Rightarrow> bool) \<Rightarrow> string option \<Rightarrow> mstate \<Rightarrow> error + mstate" where
  "monitor_pass fs feed st =
     (case feed of
        None \<Rightarrow> Inr (st\<lparr>console := console st @ [Perror_fopen, Sleep 1]\<rparr>)
      | Some content \<Rightarrow>
          (let debug_buffer = capture content;
               st0 = st\<lparr>found_bug := False, bug_elapsed := 0, bug_opcode := []\<rparr>
           in case scan_lines fs debug_buffer debug_buffer st0 of
                Inl err \<Rightarrow> Inl err
              | Inr st1 \<Rightarrow>
                  (let st2 = st1\<lparr>iteration := iteration st1 + 1\<rparr>;
                       st3 = (if iteration st2 mod 100 = 0
                              then st2\<lparr>console := console st2 @
                                         [Progress (iteration st2) (bugs_found st2)]\<rparr>
                              else st2)
                   in Inr (st3\<lparr>console := console st3 @ [Usleep 100]\<rparr>))))"

text \<open>
  The monitor thread against a script of the environment: one entry for each pass of the
  loop, with the feed of that pass and whether SIGINT or SIGTERM is delivered while the
  pass runs. The loop can go on for ever (a feed that never opens is retried without
  counting), so a script that ends before the loop does gives \<open>Feed_script_exhausted\<close>.
\<close>

record pass_env =
  pass_feed :: "string option"
  pass_signal :: bool

fun monitor_loop :: "(nat \<Rightarrow> bool) \<Rightarrow> pass_env list \<Rightarrow> mstate \<Rightarrow> error + mstate" where
  "monitor_loop fs [] st =
     (if keep_running st \<noteq> 0 \<and> iteration st < TEST_ITERATIONS
      then Inl Feed_script_exhausted
      else Inr (st\<lparr>keep_running := 0\<rparr>))"
| "monitor_loop fs (e # es) st =
     (if keep_running st \<noteq> 0 \<and> iteration st < TEST_ITERATIONS
      then (case monitor_pass fs (pass_feed e) st of
              Inl err \<Rightarrow> Inl err
            | Inr st' \<Rightarrow> monitor_loop fs es (if pass_signal e then cleanup 2 st' else st'))
      else Inr (st\<lparr>keep_running := 0\<rparr>))"

definition monitor_worker :: "(nat \<Rightarrow> bool) \<Rightarrow> pass_env list \<Rightarrow> mstate \<Rightarrow> error + mstate" where
  "monitor_worker fs script st = monitor_loop fs script (st\<lparr>iteration := 0\<rparr>)"

section \<open>Coordinator: \<open>main\<close>\<close>

text \<open>
  The environment of a run: whether \<open>setup_device\<close> finds the sg device (it calls
  \<open>exit(1)\<close> otherwise), whether the log file can be created, whether a signal arrives
  before the monitor starts, the answers to the log opens, and the monitor's script.
  The I/O workers only read \<open>keep_running\<close>; their effect is the content of the feed.
  \<open>main\<close> returns the exit status and the final state.
\<close>

record run_env =
  device_found :: bool
  log_created :: bool
  early_signal :: bool
  log_open_ok :: "nat \<Rightarrow> bool"
  passes :: "pass_env list"

definition main :: "run_env \<Rightarrow> error + (int \<times> mstate)" where
  "main env =
     (let st0 = (if log_created env then initial_state\<lparr>log_header := True\<rparr>
                 else initial_state\<lparr>console := [Warn_log_create]\<rparr>)
      in if \<not> device_found env
         then Inr (1, st0\<lparr>console := console st0 @ [Device_not_found]\<rparr>)
         else
           (let st1 = (if early_signal env then cleanup 2 st0 else st0)
            in case monitor_worker (log_open_ok env) (passes env) st1 of
                 Inl err \<Rightarrow> Inl err
               | Inr st2 \<Rightarrow>
                   (let st3 = st2\<lparr>keep_running := 0\<rparr>;
                        st4 = st3\<lparr>console := console st3 @ [Summary (bugs_found st3)]\<rparr>
                    in Inr (if bugs_found st4 > 0 then 0 else 1, st4))))"

text \<open>
  The interleaving of the threads, one atomic action per step: a signal, one command of
  an I/O worker, one pass of the monitor (the test of \<open>keep_running\<close> at the loop head
  and the pass are not atomic, so the pass carries no guard on it), the monitor's exit,
  and \<open>main\<close> stopping the workers.
\<close>

inductive step :: "(nat \<Rightarrow> bool) \<Rightarrow> mstate \<Rightarrow> mstate \<Rightarrow> bool" for fs where
  signal: "step fs s (cleanup sig s)"
| io_worker: "step fs s s"
| monitor_pass: "iteration s < TEST_ITERATIONS \<Longrightarrow> monitor_pass fs feed s = Inr s' \<Longrightarrow> step fs s s'"
| monitor_exit: "\<not> (keep_running s \<noteq> 0 \<and> iteration s < TEST_ITERATIONS) \<Longrightarrow>
                 step fs s (s\<lparr>keep_running := 0\<rparr>)"
| main_stop: "step fs s (s\<lparr>keep_running := 0\<rparr>)"

section \<open>Auxiliary definitions for the statements\<close>

text \<open>
  The number of failed log opens of a run: each one prints the warning of
  \<open>log_debug_snapshot\<close> and nothing else does.
\<close>

definition log_failures :: "mstate \<Rightarrow> nat" where
  "log_failures st = length (filter (\<lambda>e. e = Warn_log_open) (console st))"

definition log_always_opens :: "nat \<Rightarrow> bool" where
  "log_always_opens k = True"

definition log_never_opens :: "nat \<Rightarrow> bool" where
  "log_never_opens k = False"

text \<open>
  Two runs of one monitor pass over a feed of one line with an elapsed time of 15000 ms,
  interrupted by a signal during the pass: in the first the log file opens, in the second
  it does not.
\<close>

definition logged_run :: run_env where
  "logged_run =
     \<lparr>device_found = True, log_created = True, early_signal = False,
      log_open_ok = log_always_opens,
      passes = [\<lparr>pass_feed = Some (''t_o/elap=60000/15000ms op=0x0a'' @ [CHR 0x0A]),
                 pass_signal = True\<rparr>]\<rparr>"

definition logged_run_final :: mstate where
  "logged_run_final =
     \<lparr>keep_running = 0, bugs_found = 1, iteration = 1, found_bug = True,
      bug_elapsed = 15000, bug_opcode = ''0a'', log_header = True,
      bug_log = [\<lparr>log_iteration = 0, log_elapsed = 15000, log_opcode = ''0a'',
                  log_snapshot = ''t_o/elap=60000/15000ms op=0x0a'' @ [CHR 0x0A]\<rparr>],
      console = [Bogus_report 0 15000 ''0a'' ''t_o/elap=60000/15000ms op=0x0a'',
                 Usleep 100, Summary 1],
      examined = [(''t_o/elap=60000/15000ms op=0x0a'', 15000)]\<rparr>"

definition failing_log_run :: run_env where
  "failing_log_run =
     \<lparr>device_found = True, log_created = True, early_signal = False,
      log_open_ok = log_never_opens,
      passes = [\<lparr>pass_feed = Some (''t_o/elap=60000/15000ms op=0x0a'' @ [CHR 0x0A]),
                 pass_signal = True\<rparr>]\<rparr>"

definition failing_log_run_final :: mstate where
  "failing_log_run_final =
     \<lparr>keep_running = 0, bugs_found = 1, iteration = 1, found_bug = True,
      bug_elapsed = 15000, bug_opcode = ''0a'', log_header = True,
      bug_log = [],
      console = [Warn_log_open,
                 Bogus_report 0 15000 ''0a'' ''t_o/elap=60000/15000ms op=0x0a'',
                 Usleep 100, Summary 1],
      examined = [(''t_o/elap=60000/15000ms op=0x0a'', 15000)]\<rparr>"

text \<open>
  Decimal notation as \<open>printf("%d")\<close> writes it, to state what "the integer in the line"
  is; the lowercase hexadecimal digits, which are the characters the loop of
  \<open>get_opcode\<close> keeps, and the hexadecimal digits of C's \<open>isxdigit\<close>.
\<close>

fun show_nat :: "nat \<Rightarrow> string" where
  "show_nat n = (if n < 10 then [char_of (48 + n)]
                 else show_nat (n div 10) @ [char_of (48 + n mod 10)])"

definition show_int :: "int \<Rightarrow> string" where
  "show_int i = (if i < 0 then CHR ''-'' # show_nat (nat (- i)) else show_nat (nat i))"

definition lower_hex :: "char \<Rightarrow> bool" where
  "lower_hex c \<longleftrightarrow>
     (48 \<le> (of_char c :: nat) \<and> (of_char c :: nat) \<le> 57) \<or>
     (97 \<le> (of_char c :: nat) \<and> (of_char c :: nat) \<le> 102)"

definition isxdigit_c :: "char \<Rightarrow> bool" where
  "isxdigit_c c \<longleftrightarrow>
     (48 \<le> (of_char c :: nat) \<and> (of_char c :: nat) \<le> 57) \<or>
     (97 \<le> (of_char c :: nat) \<and> (of_char c :: nat) \<le> 102) \<or>
     (65 \<le> (of_char c :: nat) \<and> (of_char c :: nat) \<le> 70)"

text \<open>
  A run over a feed without anomaly (a finished request, which has no \<open>t_o/elap=\<close>
  field, and a request in flight for 50 ms), and a feed whose first line has 512
  characters.
\<close>

definition quiet_feed :: string where
  "quiet_feed = ''sg0: dur=5ms op=0x08'' @ [CHR 0x0A] @
                ''sg1: t_o/elap=60000/50ms op=0x00'' @ [CHR 0x0A]"

definition quiet_run :: run_env where
  "quiet_run =
     \<lparr>device_found = True, log_created = True, early_signal = False,
      log_open_ok = log_always_opens,
      passes = [\<lparr>pass_feed = Some quiet_feed, pass_signal = True\<rparr>]\<rparr>"

definition quiet_run_final :: mstate where
  "quiet_run_final =
     \<lparr>keep_running = 0, bugs_found = 0, iteration = 1, found_bug = False,
      bug_elapsed = 0, bug_opcode = [], log_header = True, bug_log = [],
      console = [Usleep 100, Summary 0],
      examined = [(''sg1: t_o/elap=60000/50ms op=0x00'', 50)]\<rparr>"

definition long_line :: string where
  "long_line = ''elap='' @ replicate 507 (CHR ''x'')"

definition long_line_feed :: string where
  "long_line_feed = long_line @ [CHR 0x0A] @ ''sg1: t_o/elap=60000/50ms op=0x00'' @ [CHR 0x0A]"

text \<open>
  The passes of a script in which the feed opens, and a script whose first pass cannot
  open the feed.
\<close>

definition feed_opened :: "pass_env \<Rightarrow> bool" where
  "feed_opened e \<longleftrightarrow> pass_feed e \<noteq> None"

definition retry_script :: "pass_env list" where
  "retry_script = [\<lparr>pass_feed = None, pass_signal = False\<rparr>,
                   \<lparr>pass_feed = Some quiet_feed, pass_signal = True\<rparr>]"

section \<open>Facts about the C library primitives\<close>

declare show_nat.simps [simp del]

lemmas eval_defs =
  main_def Let_def initial_state_def monitor_worker_def monitor_pass_def check_line_def
  log_debug_snapshot_def log_always_opens_def log_never_opens_def cleanup_def
  TEST_ITERATIONS_def capture_def fgets_def strlen_def parse_elapsed_def
  sscanf_t_o_elap_def match_literal_def scan_d_def scan_s_def isspace_c_def isdigit_c_def
  decimal_def digit_val_def store_int_def strtol_sat_def get_opcode_def non_hex_def
  log_failures_def

lemma strchr_None_iff: "strchr xs c = None \<longleftrightarrow> c \<notin> set xs"
  by (induction xs) auto

lemma strchr_Some_less: "strchr xs c = Some i \<Longrightarrow> i < length xs"
  by (induction xs arbitrary: i) (auto split: if_splits)

lemma strchr_append: "c \<notin> set xs \<Longrightarrow> strchr (xs @ c # ys) c = Some (length xs)"
  by (induction xs) auto

lemma strchr_Some_split:
  "strchr p c = Some n \<Longrightarrow> p = take n p @ c # drop (Suc n) p"
  by (induction p arbitrary: n) (auto split: if_splits)

lemma strstr_first_occurrence:
  assumes "strstr pre m = None" and "m \<noteq> []" and "hd m \<notin> set (tl m)"
  shows "strstr (pre @ m @ rest) m = Some (m @ rest)"
  using assms(1)
proof (induction pre)
  case Nil
  from assms(2) obtain c cs where "m = c # cs" by (cases m) auto
  then show ?case by simp
next
  case (Cons c cs)
  from Cons.prems have np: "\<not> prefix m (c # cs)" and none: "strstr cs m = None"
    by (auto split: if_splits)
  have "\<not> prefix m ((c # cs) @ m @ rest)"
  proof
    assume "prefix m ((c # cs) @ m @ rest)"
    then have "prefix m (c # cs) \<or> (\<exists>us. m = (c # cs) @ us \<and> prefix us (m @ rest))"
      by (simp only: prefix_append)
    with np obtain us where us: "m = (c # cs) @ us" "prefix us (m @ rest)"
      by blast
    from us(1) np have "us \<noteq> []" by auto
    then obtain u us' where u: "us = u # us'" by (cases us) auto
    with us(2) assms(2) have "u = hd m" by (cases m) (auto simp: prefix_Cons)
    moreover from us(1) u have "u \<in> set (tl m)" by auto
    ultimately show False using assms(3) by simp
  qed
  with Cons.IH[OF none] show ?case by simp
qed

lemma fgets_Some:
  assumes "fgets 512 feed = Some (line, rest)"
  shows "feed = line @ rest \<and> line \<noteq> [] \<and> length line \<le> 511"
proof -
  from assms have ne: "feed \<noteq> []" by (auto simp: fgets_def split: if_splits)
  show ?thesis
  proof (cases "strchr (take 511 feed) (CHR 0x0A)")
    case None
    from ne have "0 < length feed" by simp
    with assms ne None show ?thesis by (auto simp: fgets_def Let_def min_def split: if_splits)
  next
    case (Some i)
    from strchr_Some_less[OF Some] have "i < 511" "i < length feed" by auto
    with assms ne Some show ?thesis by (auto simp: fgets_def Let_def)
  qed
qed

lemma strlen_le: "strlen s \<le> length s"
  by (simp add: strlen_def length_takeWhile_le)

lemma strlen_no_nul: "CHR 0x00 \<notin> set s \<Longrightarrow> strlen s = length s"
proof -
  assume "CHR 0x00 \<notin> set s"
  then have "takeWhile (\<lambda>c. c \<noteq> CHR 0x00) s = s"
    by (auto simp: takeWhile_eq_all_conv)
  then have "length (takeWhile (\<lambda>c. c \<noteq> CHR 0x00) s) = length s"
    by (rule arg_cong)
  then show ?thesis by (simp only: strlen_def)
qed

section \<open>The parser\<close>

text \<open>The loop of \<open>get_opcode\<close> keeps the longest run of lowercase hexadecimal digits.\<close>

lemma trunc_loop_takeWhile_from:
  "i \<le> length opcode \<Longrightarrow> (\<And>j. j < i \<Longrightarrow> \<not> non_hex (opcode ! j)) \<Longrightarrow>
   trunc_loop i opcode = takeWhile (\<lambda>c. \<not> non_hex c) opcode"
proof (induction i opcode rule: trunc_loop.induct)
  case (1 i opcode)
  show ?case
  proof (cases "i < length opcode")
    case False
    with "1.prems" have "i = length opcode" by simp
    with "1.prems"(2) have "\<forall>c \<in> set opcode. \<not> non_hex c"
      by (auto simp: in_set_conv_nth)
    then have tw: "takeWhile (\<lambda>c. \<not> non_hex c) opcode = opcode" by simp
    from False have "trunc_loop i opcode = opcode"
      by (subst trunc_loop.simps) simp
    with tw show ?thesis by (simp only:)
  next
    case True
    show ?thesis
    proof (cases "non_hex (opcode ! i)")
      case nh: True
      have "takeWhile (\<lambda>c. \<not> non_hex c) opcode = take i opcode"
        by (rule takeWhile_eq_take_P_nth) (use "1.prems"(2) nh in auto)
      with True nh show ?thesis by (simp add: trunc_loop.simps[of i opcode])
    next
      case h: False
      have "\<And>j. j < Suc i \<Longrightarrow> \<not> non_hex (opcode ! j)"
        using "1.prems"(2) h by (auto simp: less_Suc_eq)
      with "1.IH"[OF True h] True have "trunc_loop (Suc i) opcode = takeWhile (\<lambda>c. \<not> non_hex c) opcode"
        by simp
      with True h show ?thesis by (simp add: trunc_loop.simps[of i opcode])
    qed
  qed
qed

lemma trunc_loop_takeWhile: "trunc_loop 0 opcode = takeWhile lower_hex opcode"
proof -
  have "(\<lambda>c. \<not> non_hex c) = lower_hex"
    by (auto simp: fun_eq_iff non_hex_def lower_hex_def)
  with trunc_loop_takeWhile_from[of 0 opcode] show ?thesis by simp
qed

text \<open>Reading back a printed integer: \<open>%d\<close> after \<open>%d\<close>.\<close>

lemma decimal_snoc: "decimal (ds @ [c]) = 10 * decimal ds + digit_val c"
  by (simp add: decimal_def)

lemma show_nat_digits: "\<forall>c \<in> set (show_nat n). isdigit_c c"
proof (induction n rule: show_nat.induct)
  case (1 n)
  show ?case
  proof (cases "n < 10")
    case True
    then show ?thesis by (simp add: show_nat.simps[of n] isdigit_c_def)
  next
    case False
    have "n mod 10 < 10" by simp
    then have "isdigit_c (char_of (48 + n mod 10))" by (simp add: isdigit_c_def)
    with "1.IH"[OF False] False show ?thesis by (simp add: show_nat.simps[of n])
  qed
qed

lemma show_nat_nonempty: "show_nat n \<noteq> []"
  by (simp add: show_nat.simps[of n])

lemma decimal_show_nat: "decimal (show_nat n) = int n"
proof (induction n rule: show_nat.induct)
  case (1 n)
  show ?case
  proof (cases "n < 10")
    case True
    then show ?thesis by (simp add: show_nat.simps[of n] decimal_def digit_val_def)
  next
    case False
    have "n mod 10 < 10" by simp
    then have "digit_val (char_of (48 + n mod 10)) = int (n mod 10)"
      by (simp add: digit_val_def)
    moreover have "10 * int (n div 10) + int (n mod 10) = int n"
      by arith
    ultimately show ?thesis
      using "1.IH"[OF False] False by (simp add: show_nat.simps[of n] decimal_snoc)
  qed
qed


lemma store_int_in_range: "- (2 ^ 31) \<le> v \<Longrightarrow> v < 2 ^ 31 \<Longrightarrow> store_int v = v"
proof -
  assume a: "- (2 ^ 31) \<le> v" "v < 2 ^ 31"
  then have "strtol_sat v = v" by (simp add: strtol_sat_def)
  moreover have "sint (word_of_int v :: 32 word) = v"
    using a by (simp add: sint_sbintrunc' signed_take_bit_int_eq_self)
  ultimately show ?thesis by (simp add: store_int_def)
qed

lemma isdigit_not_space: "isdigit_c c \<Longrightarrow> \<not> isspace_c c \<and> c \<noteq> CHR ''-'' \<and> c \<noteq> CHR ''+''"
  by (auto simp: isdigit_c_def isspace_c_def)

lemma takeWhile_run:
  "\<forall>c \<in> set xs. P c \<Longrightarrow> ys = [] \<or> \<not> P (hd ys) \<Longrightarrow> takeWhile P (xs @ ys) = xs"
  by (cases ys) auto

lemma dropWhile_run:
  "\<forall>c \<in> set xs. P c \<Longrightarrow> ys = [] \<or> \<not> P (hd ys) \<Longrightarrow> dropWhile P (xs @ ys) = ys"
  by (cases ys) auto

lemma scan_d_show_nat:
  assumes "r = [] \<or> \<not> isdigit_c (hd r)" and "int n < 2 ^ 31"
  shows "scan_d (show_nat n @ r) = Some (int n, r)"
proof -
  obtain d ds where ds: "show_nat n = d # ds"
    using show_nat_nonempty[of n] by (cases "show_nat n") auto
  with show_nat_digits[of n] have d: "isdigit_c d" by simp
  note nd = isdigit_not_space[OF d]
  have s1: "dropWhile isspace_c (show_nat n @ r) = show_nat n @ r"
    using nd by (simp add: ds)
  have tw: "takeWhile isdigit_c (show_nat n @ r) = show_nat n"
    by (rule takeWhile_run[OF show_nat_digits assms(1)])
  have dw: "dropWhile isdigit_c (show_nat n @ r) = r"
    by (rule dropWhile_run[OF show_nat_digits assms(1)])
  have hd: "hd (show_nat n @ r) = d" by (simp add: ds)
  have "store_int (int n) = int n"
    using assms(2) by (intro store_int_in_range) auto
  then show ?thesis
    using nd show_nat_nonempty[of n]
    by (simp add: scan_d_def s1 Let_def hd tw dw decimal_show_nat)
qed

lemma scan_d_show_int:
  assumes "r = [] \<or> \<not> isdigit_c (hd r)" and "- (2 ^ 31) \<le> i" and "i < 2 ^ 31"
  shows "scan_d (show_int i @ r) = Some (i, r)"
proof (cases "i < 0")
  case False
  with scan_d_show_nat[OF assms(1), of "nat i"] assms(3) show ?thesis
    by (simp add: show_int_def)
next
  case True
  let ?n = "nat (- i)"
  have tw: "takeWhile isdigit_c (show_nat ?n @ r) = show_nat ?n"
    by (rule takeWhile_run[OF show_nat_digits assms(1)])
  have dw: "dropWhile isdigit_c (show_nat ?n @ r) = r"
    by (rule dropWhile_run[OF show_nat_digits assms(1)])
  have "store_int (- int ?n) = i"
    using True assms(2,3) by (simp add: store_int_in_range)
  then show ?thesis
    using True show_nat_nonempty[of ?n]
    by (simp add: scan_d_def show_int_def isspace_c_def Let_def tw dw decimal_show_nat)
qed

lemma sscanf_t_o_elap_well_formed:
  assumes "- (2 ^ 31) \<le> t" "t < 2 ^ 31" "- (2 ^ 31) \<le> e" "e < 2 ^ 31"
  shows "sscanf_t_o_elap (''t_o/elap='' @ show_int t @ ''/'' @ show_int e @ ''ms'' @ post) =
           Scan_2 t e"
proof -
  have 1: "scan_d (show_int t @ ''/'' @ show_int e @ ''ms'' @ post) =
             Some (t, ''/'' @ show_int e @ ''ms'' @ post)"
    by (rule scan_d_show_int) (use assms in \<open>simp_all add: isdigit_c_def\<close>)
  have 2: "scan_d (show_int e @ ''ms'' @ post) = Some (e, ''ms'' @ post)"
    by (rule scan_d_show_int) (use assms in \<open>simp_all add: isdigit_c_def\<close>)
  show ?thesis
    using 1 2 by (simp add: sscanf_t_o_elap_def match_literal_def)
qed

lemma parse_elapsed_well_formed:
  assumes "strstr pre ''t_o/elap='' = None"
    and "- (2 ^ 31) \<le> t" "t < 2 ^ 31" "- (2 ^ 31) \<le> e" "e < 2 ^ 31"
  shows "parse_elapsed (pre @ ''t_o/elap='' @ show_int t @ ''/'' @ show_int e @ ''ms'' @ post) = e"
proof -
  have "strstr (pre @ ''t_o/elap='' @ (show_int t @ ''/'' @ show_int e @ ''ms'' @ post))
          ''t_o/elap='' =
        Some (''t_o/elap='' @ (show_int t @ ''/'' @ show_int e @ ''ms'' @ post))"
    by (rule strstr_first_occurrence[OF assms(1)]) simp_all
  then show ?thesis
    using sscanf_t_o_elap_well_formed[OF assms(2-5), of post]
    by (simp add: parse_elapsed_def)
qed

lemma lower_hex_not_space: "lower_hex c \<Longrightarrow> \<not> isspace_c c"
  by (auto simp: lower_hex_def isspace_c_def)

lemma get_opcode_well_formed:
  assumes "strstr pre ''op=0x'' = None"
    and "opc \<noteq> []" and "\<forall>c \<in> set opc. lower_hex c"
    and "post = [] \<or> \<not> lower_hex (hd post)"
    and "length (takeWhile (\<lambda>c. \<not> isspace_c c) (opc @ post)) \<le> 7"
  shows "get_opcode 8 (pre @ ''op=0x'' @ opc @ post) = Inr opc"
proof -
  let ?tok = "takeWhile (\<lambda>c. \<not> isspace_c c) (opc @ post)"
  have st: "strstr (pre @ ''op=0x'' @ (opc @ post)) ''op=0x'' = Some (''op=0x'' @ (opc @ post))"
    by (rule strstr_first_occurrence[OF assms(1)]) simp_all
  obtain c cs where opc: "opc = c # cs" using assms(2) by (cases opc) auto
  with assms(3) have "\<not> isspace_c c" by (simp add: lower_hex_not_space)
  then have dw: "dropWhile isspace_c (opc @ post) = opc @ post" by (simp add: opc)
  from assms(3) have "\<forall>c \<in> set opc. \<not> isspace_c c" by (auto dest: lower_hex_not_space)
  then have tok: "?tok = opc @ takeWhile (\<lambda>c. \<not> isspace_c c) post" by simp
  then have ne: "?tok \<noteq> []" by (simp add: opc)
  have "takeWhile lower_hex ?tok = takeWhile (\<lambda>c. \<not> isspace_c c \<and> lower_hex c) (opc @ post)"
    by (simp only: takeWhile_takeWhile)
  also have "(\<lambda>c. \<not> isspace_c c \<and> lower_hex c) = lower_hex"
    by (auto simp: fun_eq_iff dest: lower_hex_not_space)
  also have "takeWhile lower_hex (opc @ post) = opc"
    by (rule takeWhile_run[OF assms(3,4)])
  finally have tl: "trunc_loop 0 ?tok = opc" by (simp only: trunc_loop_takeWhile)
  show ?thesis
    using st ne tl assms(5)
    by (simp add: get_opcode_def match_literal_def scan_s_def dw Let_def)
qed

lemma show_60000: "show_int 60000 = ''60000''"
  by (simp add: show_int_def show_nat.simps char_of_def bit_0)
lemma show_15000: "show_int 15000 = ''15000''"
  by (simp add: show_int_def show_nat.simps char_of_def bit_0)

section \<open>Capturing the feed\<close>

lemma capture_loop_step:
  "fgets 512 feed = Some (line, rest) \<Longrightarrow> length buf < 65024 \<Longrightarrow>
   capture_loop feed buf = capture_loop rest (buf @ take (strlen line) line)"
  by (subst capture_loop.simps) simp

lemma capture_loop_length:
  "length (capture_loop feed buf) \<le> max (length buf) 65534"
proof (induction feed buf rule: capture_loop.induct)
  case (1 feed buf)
  show ?case
  proof (cases "fgets 512 feed")
    case None
    then show ?thesis by (simp add: capture_loop.simps[of feed buf])
  next
    case (Some a)
    obtain line rest where a: "a = (line, rest)" by (cases a)
    show ?thesis
    proof (cases "length buf < 65536 - 512")
      case False
      with Some a show ?thesis by (simp add: capture_loop.simps[of feed buf])
    next
      case True
      from fgets_Some[OF Some[unfolded a]] strlen_le[of line]
      have "length (buf @ take (strlen line) line) \<le> 65534" using True by simp
      with "1.IH"[OF Some a[symmetric] True] Some a True
      show ?thesis by (simp add: capture_loop.simps[of feed buf])
    qed
  qed
qed

lemma capture_loop_prefix:
  "CHR 0x00 \<notin> set feed \<Longrightarrow> \<exists>k. capture_loop feed buf = buf @ take k feed"
proof (induction feed buf rule: capture_loop.induct)
  case (1 feed buf)
  show ?case
  proof (cases "fgets 512 feed")
    case None
    then have "capture_loop feed buf = buf @ take 0 feed"
      by (simp add: capture_loop.simps[of feed buf])
    then show ?thesis ..
  next
    case (Some a)
    obtain line rest where a: "a = (line, rest)" by (cases a)
    note fg = fgets_Some[OF Some[unfolded a]]
    show ?thesis
    proof (cases "length buf < 65536 - 512")
      case False
      with Some a have "capture_loop feed buf = buf @ take 0 feed"
        by (simp add: capture_loop.simps[of feed buf])
      then show ?thesis ..
    next
      case True
      from fg "1.prems" have nn: "CHR 0x00 \<notin> set line" "CHR 0x00 \<notin> set rest" by auto
      from "1.IH"[OF Some a[symmetric] True nn(2)] obtain k where
        k: "capture_loop rest (buf @ take (strlen line) line) =
              (buf @ take (strlen line) line) @ take k rest" ..
      from True have "capture_loop feed buf = capture_loop rest (buf @ take (strlen line) line)"
        by (intro capture_loop_step Some[unfolded a]) simp
      also have "\<dots> = buf @ line @ take k rest"
        using k strlen_no_nul[OF nn(1)] by simp
      also have "\<dots> = buf @ take (length line + k) feed"
        using fg by simp
      finally show ?thesis ..
    qed
  qed
qed

lemma capture_loop_whole:
  "CHR 0x00 \<notin> set feed \<Longrightarrow> length buf + length feed \<le> 65024 \<Longrightarrow>
   capture_loop feed buf = buf @ feed"
proof (induction feed buf rule: capture_loop.induct)
  case (1 feed buf)
  show ?case
  proof (cases "fgets 512 feed")
    case None
    then have "feed = []" by (auto simp: fgets_def Let_def split: if_splits)
    moreover from None have "capture_loop feed buf = buf"
      by (simp add: capture_loop.simps[of feed buf])
    ultimately show ?thesis by simp
  next
    case (Some a)
    obtain line rest where a: "a = (line, rest)" by (cases a)
    note fg = fgets_Some[OF Some[unfolded a]]
    from fg "1.prems" have nn: "CHR 0x00 \<notin> set line" "CHR 0x00 \<notin> set rest" by auto
    from fg "1.prems"(2) have True: "length buf < 65536 - 512" by (cases line) auto
    from fg "1.prems"(2) have "length (buf @ take (strlen line) line) + length rest \<le> 65024"
      using strlen_no_nul[OF nn(1)] by simp
    from "1.IH"[OF Some a[symmetric] True nn(2) this]
    have "capture_loop rest (buf @ take (strlen line) line) = buf @ line @ rest"
      using strlen_no_nul[OF nn(1)] by simp
    moreover from True
    have "capture_loop feed buf = capture_loop rest (buf @ take (strlen line) line)"
      by (intro capture_loop_step Some[unfolded a]) simp
    ultimately show ?thesis using fg by simp
  qed
qed

lemma capture_whole:
  "CHR 0x00 \<notin> set feed \<Longrightarrow> length feed \<le> 65024 \<Longrightarrow> capture feed = feed"
  using capture_loop_whole[of feed "[]"] by (simp add: capture_def)

lemma fgets_replicate:
  "c \<noteq> CHR 0x0A \<Longrightarrow> fgets 512 (replicate 511 c @ s) = Some (replicate 511 c, s)"
  by (simp add: fgets_def Let_def strchr_None_iff[THEN iffD2])

lemma capture_loop_chunks:
  "c \<noteq> CHR 0x0A \<Longrightarrow> c \<noteq> CHR 0x00 \<Longrightarrow> length buf + 511 * k < 65024 + 511 \<Longrightarrow>
   capture_loop (replicate (511 * k) c) buf = buf @ replicate (511 * k) c"
proof (induction k arbitrary: buf)
  case 0
  then show ?case by (simp add: capture_loop.simps[of "[]" buf] fgets_def)
next
  case (Suc k)
  have split: "replicate (511 * Suc k) c = replicate 511 c @ replicate (511 * k) c"
    by (simp add: replicate_add[symmetric])
  from Suc.prems(3) have lt: "length buf < 65536 - 512" by simp
  have sl: "strlen (replicate 511 c) = 511"
    using Suc.prems(2) by (simp add: strlen_no_nul)
  from Suc.prems(3) have "length (buf @ replicate 511 c) + 511 * k < 65024 + 511" by simp
  from Suc.IH[OF Suc.prems(1,2) this]
  have "capture_loop (replicate (511 * k) c) (buf @ replicate 511 c) =
          buf @ replicate 511 c @ replicate (511 * k) c" by simp
  moreover from lt
  have "capture_loop (replicate 511 c @ replicate (511 * k) c) buf =
          capture_loop (replicate (511 * k) c) (buf @ take (strlen (replicate 511 c)) (replicate 511 c))"
    by (intro capture_loop_step fgets_replicate[OF Suc.prems(1)]) simp
  ultimately show ?case
    unfolding split using sl by simp
qed

lemma capture_prefix: "CHR 0x00 \<notin> set feed \<Longrightarrow> prefix (capture feed) feed"
  using capture_loop_prefix[of feed "[]"] by (auto simp: capture_def take_is_prefix)

section \<open>Invariants of the monitor\<close>

text \<open>
  A property of the state that every checked line preserves holds after the scan of the
  whole buffer, after a pass and after the loop. Lines of 512 characters or more are not
  checked.
\<close>

lemma scan_lines_invariant:
  assumes "scan_lines fs buf p st = Inr st'" and "P st"
    and "\<And>l s s'. P s \<Longrightarrow> length l < 512 \<Longrightarrow> check_line fs buf l s = Inr s' \<Longrightarrow> P s'"
  shows "P st'"
  using assms
proof (induction fs buf p st rule: scan_lines.induct)
  case (1 fs buf p st)
  show ?case
  proof (cases "p = []")
    case True
    with "1.prems" show ?thesis by simp
  next
    case False
    show ?thesis
    proof (cases "strchr p (CHR 0x0A)")
      case None
      with False "1.prems" show ?thesis by simp
    next
      case (Some n)
      from "1.prems"(1) False Some obtain st1 where
        a: "(if n < 512 then check_line fs buf (take n p) st else Inr st) = Inr st1" and
        b: "scan_lines fs buf (drop (Suc n) p) st1 = Inr st'"
        by (auto split: sum.splits)
      have "P st1"
      proof (cases "n < 512")
        case True
        with a have c: "check_line fs buf (take n p) st = Inr st1" by simp
        have "length (take n p) < 512" using True by simp
        from "1.prems"(3)[OF "1.prems"(2) this c] show ?thesis .
      next
        case False
        with a "1.prems"(2) show ?thesis by simp
      qed
      then show ?thesis
        by (rule "1.IH"[OF False Some a b]) (rule "1.prems"(3))
    qed
  qed
qed

text \<open>What one pass and the whole loop preserve, from what the line check preserves.\<close>

lemma monitor_pass_invariant:
  assumes "monitor_pass fs feed st = Inr st'" and "P st"
    and line: "\<And>buf l s s'. P s \<Longrightarrow> length l < 512 \<Longrightarrow> check_line fs buf l s = Inr s' \<Longrightarrow> P s'"
    and locals: "\<And>s b e opc. P s \<Longrightarrow> P (s\<lparr>found_bug := b, bug_elapsed := e, bug_opcode := opc\<rparr>)"
    and iter: "\<And>s. P s \<Longrightarrow> P (s\<lparr>iteration := iteration s + 1\<rparr>)"
    and out: "\<And>s ev. P s \<Longrightarrow> ev \<noteq> Warn_log_open \<Longrightarrow> P (s\<lparr>console := console s @ [ev]\<rparr>)"
  shows "P st'"
proof (cases feed)
  case None
  from out[OF out[OF assms(2), of Perror_fopen], of "Sleep 1"] assms(1) None
  show ?thesis by (simp add: monitor_pass_def)
next
  case (Some content)
  let ?st0 = "st\<lparr>found_bug := False, bug_elapsed := 0, bug_opcode := []\<rparr>"
  from assms(1) Some obtain st1 where
    sc: "scan_lines fs (capture content) (capture content) ?st0 = Inr st1" and
    st': "st' = (let st2 = st1\<lparr>iteration := iteration st1 + 1\<rparr>;
                     st3 = (if iteration st2 mod 100 = 0
                            then st2\<lparr>console := console st2 @
                                       [Progress (iteration st2) (bugs_found st2)]\<rparr>
                            else st2)
                 in st3\<lparr>console := console st3 @ [Usleep 100]\<rparr>)"
    by (auto simp: monitor_pass_def Let_def split: sum.splits)
  have "P ?st0" by (rule locals[OF assms(2)])
  with sc have "P st1"
    by (rule scan_lines_invariant) (rule line)
  then have p2: "P (st1\<lparr>iteration := iteration st1 + 1\<rparr>)" by (rule iter)
  define st2 where "st2 = st1\<lparr>iteration := iteration st1 + 1\<rparr>"
  define st3 where "st3 = (if iteration st2 mod 100 = 0
                            then st2\<lparr>console := console st2 @
                                       [Progress (iteration st2) (bugs_found st2)]\<rparr>
                            else st2)"
  from p2 have "P st2" by (simp add: st2_def)
  then have "P st3"
    unfolding st3_def using out[of st2 "Progress (iteration st2) (bugs_found st2)"] by simp
  then have "P (st3\<lparr>console := console st3 @ [Usleep 100]\<rparr>)"
    by (rule out) simp
  moreover have "st' = st3\<lparr>console := console st3 @ [Usleep 100]\<rparr>"
    unfolding st' st3_def st2_def Let_def by simp
  ultimately show ?thesis by simp
qed

lemma monitor_loop_invariant:
  assumes "monitor_loop fs es st = Inr st'" and "P st"
    and pass: "\<And>feed s s'. P s \<Longrightarrow> keep_running s \<noteq> 0 \<Longrightarrow> iteration s < TEST_ITERATIONS \<Longrightarrow>
                 monitor_pass fs feed s = Inr s' \<Longrightarrow> P s'"
    and stop: "\<And>s. P s \<Longrightarrow> P (s\<lparr>keep_running := 0\<rparr>)"
  shows "P st'"
  using assms(1,2)
proof (induction es arbitrary: st)
  case Nil
  then show ?case by (auto split: if_splits intro: stop)
next
  case (Cons e es)
  show ?case
  proof (cases "keep_running st \<noteq> 0 \<and> iteration st < TEST_ITERATIONS")
    case False
    with Cons.prems show ?thesis by (auto intro: stop)
  next
    case True
    with Cons.prems(1) obtain st1 where
      a: "monitor_pass fs (pass_feed e) st = Inr st1" and
      b: "monitor_loop fs es (if pass_signal e then cleanup 2 st1 else st1) = Inr st'"
      by (auto split: sum.splits)
    from True have "keep_running st \<noteq> 0" "iteration st < TEST_ITERATIONS" by simp_all
    from pass[OF Cons.prems(2) this a] have "P st1" .
    then have "P (if pass_signal e then cleanup 2 st1 else st1)"
      by (auto simp: cleanup_def intro: stop)
    with b show ?thesis by (rule Cons.IH)
  qed
qed

subsection \<open>Accounting of anomalies\<close>

lemma check_line_accounted:
  "check_line fs buf l s = Inr s' \<Longrightarrow>
   bugs_found s = int (length (bug_log s)) + int (log_failures s) \<Longrightarrow>
   bugs_found s' = int (length (bug_log s')) + int (log_failures s')"
  by (auto simp: check_line_def Let_def log_debug_snapshot_def log_failures_def
           split: if_splits sum.splits)

lemma check_line_no_failure:
  "check_line fs buf l s = Inr s' \<Longrightarrow> \<forall>k. fs k \<Longrightarrow> log_failures s = 0 \<Longrightarrow> log_failures s' = 0"
  by (auto simp: check_line_def Let_def log_debug_snapshot_def log_failures_def
           split: if_splits sum.splits)

lemma monitor_pass_accounted:
  assumes "monitor_pass fs feed s = Inr s'"
    and "bugs_found s = int (length (bug_log s)) + int (log_failures s)"
  shows "bugs_found s' = int (length (bug_log s')) + int (log_failures s')"
  by (rule monitor_pass_invariant[OF assms(1),
        where P = "\<lambda>s. bugs_found s = int (length (bug_log s)) + int (log_failures s)"])
     (auto simp: assms(2) log_failures_def dest: check_line_accounted)

lemma monitor_pass_no_failure:
  assumes "monitor_pass fs feed s = Inr s'" and "\<forall>k. fs k" and "log_failures s = 0"
  shows "log_failures s' = 0"
  by (rule monitor_pass_invariant[OF assms(1), where P = "\<lambda>s. log_failures s = 0"])
     (use assms(2,3) in \<open>auto dest: check_line_no_failure simp: log_failures_def\<close>)

lemma monitor_loop_accounted:
  assumes "monitor_loop fs es s = Inr s'"
    and "bugs_found s = int (length (bug_log s)) + int (log_failures s)"
  shows "bugs_found s' = int (length (bug_log s')) + int (log_failures s')"
  by (rule monitor_loop_invariant[OF assms(1),
        where P = "\<lambda>s. bugs_found s = int (length (bug_log s)) + int (log_failures s)"])
     (auto simp: assms(2) log_failures_def dest: monitor_pass_accounted)

lemma monitor_loop_no_failure:
  assumes "monitor_loop fs es s = Inr s'" and "\<forall>k. fs k" and "log_failures s = 0"
  shows "log_failures s' = 0"
  by (rule monitor_loop_invariant[OF assms(1), where P = "\<lambda>s. log_failures s = 0"])
     (use assms(2,3) in \<open>auto dest: monitor_pass_no_failure simp: log_failures_def\<close>)

lemma main_accounted:
  assumes "main env = Inr (status, st)"
  shows "bugs_found st = int (length (bug_log st)) + int (log_failures st)"
proof (cases "device_found env")
  case False
  with assms show ?thesis
    by (auto simp: main_def Let_def initial_state_def log_failures_def split: if_splits)
next
  case True
  define st1 where "st1 = (let st0 = (if log_created env then initial_state\<lparr>log_header := True\<rparr>
                 else initial_state\<lparr>console := [Warn_log_create]\<rparr>) in
                 (if early_signal env then cleanup 2 st0 else st0)\<lparr>iteration := 0\<rparr>)"
  from assms True obtain st2 where
    loop: "monitor_loop (log_open_ok env) (passes env) st1 = Inr st2" and
    st: "st = st2\<lparr>keep_running := 0, console := console st2 @ [Summary (bugs_found st2)]\<rparr>"
    by (auto simp: main_def Let_def monitor_worker_def st1_def split: sum.splits if_splits)
  have "bugs_found st1 = int (length (bug_log st1)) + int (log_failures st1)"
    by (simp add: st1_def Let_def initial_state_def cleanup_def log_failures_def)
  from monitor_loop_accounted[OF loop this] show ?thesis
    by (simp add: st log_failures_def)
qed

lemma main_no_failure:
  assumes "main env = Inr (status, st)" and "\<forall>k. log_open_ok env k"
  shows "log_failures st = 0"
proof (cases "device_found env")
  case False
  with assms show ?thesis
    by (auto simp: main_def Let_def initial_state_def log_failures_def split: if_splits)
next
  case True
  define st1 where "st1 = (let st0 = (if log_created env then initial_state\<lparr>log_header := True\<rparr>
                 else initial_state\<lparr>console := [Warn_log_create]\<rparr>) in
                 (if early_signal env then cleanup 2 st0 else st0)\<lparr>iteration := 0\<rparr>)"
  from assms True obtain st2 where
    loop: "monitor_loop (log_open_ok env) (passes env) st1 = Inr st2" and
    st: "st = st2\<lparr>keep_running := 0, console := console st2 @ [Summary (bugs_found st2)]\<rparr>"
    by (auto simp: main_def Let_def monitor_worker_def st1_def split: sum.splits if_splits)
  have "log_failures st1 = 0"
    by (simp add: st1_def Let_def initial_state_def cleanup_def log_failures_def)
  from monitor_loop_no_failure[OF loop assms(2) this] show ?thesis
    by (simp add: st log_failures_def)
qed

subsection \<open>The counter fits an \<open>int\<close>\<close>

text \<open>
  \<open>bugs_found\<close> and \<open>iteration\<close> are C \<open>int\<close>s and are modelled by unbounded
  integers. A pass adds at most one anomaly for each newline of a buffer of at most 65534
  bytes, and at most 1000 passes read a feed, so neither can wrap around.
\<close>

lemma check_line_bugs_step:
  "check_line fs buf l s = Inr s' \<Longrightarrow>
   bugs_found s' \<le> bugs_found s + 1 \<and> iteration s' = iteration s"
  by (auto simp: check_line_def Let_def log_debug_snapshot_def split: if_splits sum.splits)

lemma scan_lines_bugs_bound:
  "scan_lines fs buf p st = Inr st' \<Longrightarrow>
   bugs_found st' \<le> bugs_found st + int (length p) \<and> iteration st' = iteration st"
proof (induction fs buf p st rule: scan_lines.induct)
  case (1 fs buf p st)
  show ?case
  proof (cases "p = []")
    case True
    with "1.prems" show ?thesis by simp
  next
    case False
    show ?thesis
    proof (cases "strchr p (CHR 0x0A)")
      case None
      with False "1.prems" show ?thesis by simp
    next
      case (Some n)
      from "1.prems"(1) False Some obtain st1 where
        a: "(if n < 512 then check_line fs buf (take n p) st else Inr st) = Inr st1" and
        b: "scan_lines fs buf (drop (Suc n) p) st1 = Inr st'"
        by (auto split: sum.splits)
      from a have s1: "bugs_found st1 \<le> bugs_found st + 1 \<and> iteration st1 = iteration st"
        by (auto split: if_splits dest: check_line_bugs_step)
      from strchr_Some_less[OF Some] have "int (length (drop (Suc n) p)) + 1 \<le> int (length p)"
        by simp
      with "1.IH"[OF False Some a b] s1 show ?thesis by linarith
    qed
  qed
qed

lemma monitor_pass_counts:
  assumes "monitor_pass fs feed s = Inr s'"
  shows "(feed = None \<and> iteration s' = iteration s \<and> bugs_found s' = bugs_found s) \<or>
         (feed \<noteq> None \<and> iteration s' = iteration s + 1 \<and>
          bugs_found s' \<le> bugs_found s + 65534)"
proof (cases feed)
  case None
  with assms show ?thesis by (auto simp: monitor_pass_def)
next
  case (Some content)
  let ?st0 = "s\<lparr>found_bug := False, bug_elapsed := 0, bug_opcode := []\<rparr>"
  from assms Some obtain st1 where
    sc: "scan_lines fs (capture content) (capture content) ?st0 = Inr st1" and
    it: "iteration s' = iteration st1 + 1" and bf: "bugs_found s' = bugs_found st1"
    by (auto simp: monitor_pass_def Let_def split: sum.splits if_splits)
  from capture_loop_length[of content "[]"] have "int (length (capture content)) \<le> 65534"
    by (simp add: capture_def)
  with scan_lines_bugs_bound[OF sc] it bf Some show ?thesis by simp
qed

lemma monitor_loop_counter_bound:
  assumes "monitor_loop fs es s = Inr s'"
    and "0 \<le> iteration s" "iteration s \<le> TEST_ITERATIONS"
    and "bugs_found s \<le> 65534 * iteration s"
  shows "bugs_found s' \<le> 65534 * TEST_ITERATIONS"
proof -
  have "0 \<le> iteration s' \<and> iteration s' \<le> TEST_ITERATIONS \<and>
        bugs_found s' \<le> 65534 * iteration s'"
  proof (rule monitor_loop_invariant[OF assms(1)], goal_cases)
    case 1
    from assms(2-4) show ?case by simp
  next
    case (2 feed x x')
    from monitor_pass_counts[OF 2(4)] 2(1,3) show ?case by auto
  next
    case (3 x)
    then show ?case by simp
  qed
  then show ?thesis by (simp add: TEST_ITERATIONS_def)
qed

lemma main_counter_bound:
  assumes "main env = Inr (status, st)"
  shows "bugs_found st < 2 ^ 31"
proof (cases "device_found env")
  case False
  with assms show ?thesis
    by (auto simp: main_def Let_def initial_state_def split: if_splits)
next
  case True
  define st1 where "st1 = (let st0 = (if log_created env then initial_state\<lparr>log_header := True\<rparr>
                 else initial_state\<lparr>console := [Warn_log_create]\<rparr>) in
                 (if early_signal env then cleanup 2 st0 else st0)\<lparr>iteration := 0\<rparr>)"
  from assms True obtain st2 where
    loop: "monitor_loop (log_open_ok env) (passes env) st1 = Inr st2" and
    st: "bugs_found st = bugs_found st2"
    by (auto simp: main_def Let_def monitor_worker_def st1_def split: sum.splits if_splits)
  have "bugs_found st2 \<le> 65534 * TEST_ITERATIONS"
    by (rule monitor_loop_counter_bound[OF loop])
       (simp_all add: st1_def Let_def initial_state_def cleanup_def TEST_ITERATIONS_def)
  with st show ?thesis by (simp add: TEST_ITERATIONS_def)
qed

text \<open>Only passes in which the feed opens are counted by \<open>iteration\<close>.\<close>

lemma monitor_loop_iterations:
  "monitor_loop fs es st = Inr st' \<Longrightarrow>
   iteration st \<le> iteration st' \<and>
   iteration st' \<le> iteration st + int (length (filter feed_opened es))"
proof (induction es arbitrary: st)
  case Nil
  then show ?case by (auto split: if_splits)
next
  case (Cons e es)
  show ?case
  proof (cases "keep_running st \<noteq> 0 \<and> iteration st < TEST_ITERATIONS")
    case False
    with Cons.prems show ?thesis by auto
  next
    case True
    with Cons.prems obtain st1 where
      a: "monitor_pass fs (pass_feed e) st = Inr st1" and
      b: "monitor_loop fs es (if pass_signal e then cleanup 2 st1 else st1) = Inr st'"
      by (auto split: sum.splits)
    have "iteration (if pass_signal e then cleanup 2 st1 else st1) = iteration st1"
      by (simp add: cleanup_def)
    with Cons.IH[OF b] monitor_pass_counts[OF a] show ?thesis by (auto simp: feed_opened_def)
  qed
qed

subsection \<open>What the monitor examines\<close>

lemma check_line_examined:
  "check_line fs buf l s = Inr s' \<Longrightarrow> x \<in> set (examined s') \<Longrightarrow>
   x \<in> set (examined s) \<or> (x = (l, parse_elapsed l) \<and> strstr l ''elap='' \<noteq> None)"
  by (auto simp: check_line_def Let_def log_debug_snapshot_def split: if_splits sum.splits)

lemma monitor_pass_examined:
  assumes "monitor_pass fs feed st = Inr st'" and "x \<in> set (examined st')"
  shows "x \<in> set (examined st) \<or>
         (length (fst x) < 512 \<and> strstr (fst x) ''elap='' \<noteq> None \<and>
          snd x = parse_elapsed (fst x))"
proof -
  have "\<forall>x \<in> set (examined st'). x \<in> set (examined st) \<or>
         (length (fst x) < 512 \<and> strstr (fst x) ''elap='' \<noteq> None \<and>
          snd x = parse_elapsed (fst x))"
    by (rule monitor_pass_invariant[OF assms(1)]) (auto dest: check_line_examined)
  with assms(2) show ?thesis by blast
qed

lemma scan_lines_examined_from_buffer:
  "scan_lines fs buf p st = Inr st' \<Longrightarrow> x \<in> set (examined st') \<Longrightarrow>
   x \<in> set (examined st) \<or> (\<exists>pre post. p = pre @ fst x @ CHR 0x0A # post)"
proof (induction fs buf p st rule: scan_lines.induct)
  case (1 fs buf p st)
  show ?case
  proof (cases "p = []")
    case True
    with "1.prems" show ?thesis by simp
  next
    case False
    show ?thesis
    proof (cases "strchr p (CHR 0x0A)")
      case None
      with False "1.prems" show ?thesis by simp
    next
      case (Some n)
      from "1.prems"(1) False Some obtain st1 where
        a: "(if n < 512 then check_line fs buf (take n p) st else Inr st) = Inr st1" and
        b: "scan_lines fs buf (drop (Suc n) p) st1 = Inr st'"
        by (auto split: sum.splits)
      note sp = strchr_Some_split[OF Some]
      from "1.IH"[OF False Some a b "1.prems"(2)]
      consider "x \<in> set (examined st1)"
        | pre post where "drop (Suc n) p = pre @ fst x @ CHR 0x0A # post"
        by blast
      then show ?thesis
      proof cases
        case 1
        with a have "x \<in> set (examined st) \<or> fst x = take n p"
          by (auto split: if_splits dest: check_line_examined)
        then show ?thesis
        proof
          assume "fst x = take n p"
          with sp have "p = [] @ fst x @ CHR 0x0A # drop (Suc n) p" by simp
          then show ?thesis by blast
        qed simp
      next
        case 2
        with sp have "p = (take n p @ CHR 0x0A # pre) @ fst x @ CHR 0x0A # post" by simp
        then show ?thesis by blast
      qed
    qed
  qed
qed

lemma monitor_pass_examined_from_buffer:
  assumes "monitor_pass fs (Some feed) st = Inr st'" and "x \<in> set (examined st')"
  shows "x \<in> set (examined st) \<or> (\<exists>pre post. capture feed = pre @ fst x @ CHR 0x0A # post)"
proof -
  let ?st0 = "st\<lparr>found_bug := False, bug_elapsed := 0, bug_opcode := []\<rparr>"
  from assms(1) obtain st1 where
    sc: "scan_lines fs (capture feed) (capture feed) ?st0 = Inr st1" and
    ex: "examined st' = examined st1"
    by (auto simp: monitor_pass_def Let_def split: sum.splits if_splits)
  from scan_lines_examined_from_buffer[OF sc, of x] assms(2) ex show ?thesis by simp
qed

lemma monitor_pass_keep_running:
  assumes "monitor_pass fs feed s = Inr s'"
  shows "keep_running s' = keep_running s"
  by (rule monitor_pass_invariant[OF assms, where P = "\<lambda>x. keep_running x = keep_running s"])
     (auto simp: check_line_def Let_def log_debug_snapshot_def split: if_splits sum.splits)

lemma step_keep_stopped: "step fs s s' \<Longrightarrow> keep_running s = 0 \<Longrightarrow> keep_running s' = 0"
  by (induction rule: step.induct) (auto simp: cleanup_def dest: monitor_pass_keep_running)

subsection \<open>Two runs\<close>

lemma main_logged_run: "main logged_run = Inr (0, logged_run_final)"
  by (simp add: logged_run_def logged_run_final_def eval_defs)

lemma main_quiet_run: "main quiet_run = Inr (1, quiet_run_final)"
  by (simp add: quiet_run_def quiet_run_final_def quiet_feed_def eval_defs)

section \<open>The claims\<close>

subsection \<open>C1: anomaly counter and bug log\<close>

text \<open>
  Claim C1, as amended. The spec says that after a run the anomaly counter equals the
  number of records in the bug log, whatever happens to the log writes. In the code every
  anomaly increments \<open>bugs_found\<close> and calls \<open>log_debug_snapshot\<close> once, but a call
  that cannot open the log file prints a warning and writes no record. So after every
  completed run the counter is the number of records written plus the number of failed log
  opens; the two agree when no log open fails.
\<close>

theorem counter_is_records_plus_failed_writes:
  assumes "main env = Inr (status, st)"
  shows "bugs_found st = int (length (bug_log st)) + int (log_failures st) \<and>
         ((\<forall>k. log_open_ok env k) \<longrightarrow> bugs_found st = int (length (bug_log st)))"
  using main_accounted[OF assms] main_no_failure[OF assms] by simp

text \<open>The run \<open>logged_run\<close> completes with one anomaly and one record.\<close>

theorem counter_is_records_plus_failed_writes_witness:
  "main logged_run = Inr (0, logged_run_final) \<and>
   bugs_found logged_run_final = 1 \<and> length (bug_log logged_run_final) = 1 \<and>
   log_failures logged_run_final = 0"
  using counter_is_records_plus_failed_writes[OF main_logged_run]
  by (simp add: main_logged_run logged_run_final_def log_failures_def)

text \<open>
  C1 as the spec states it fails: in this completed run the only log open fails, the
  counter ends at 1 and the bug log holds no record.
\<close>

theorem counter_mismatch_when_log_open_fails:
  "main failing_log_run = Inr (0, failing_log_run_final) \<and>
   bugs_found failing_log_run_final = 1 \<and> length (bug_log failing_log_run_final) = 0"
  by (simp add: failing_log_run_def failing_log_run_final_def eval_defs)

subsection \<open>C2: lines without a timing field\<close>

text \<open>
  Claim C2, as amended. A line that does not contain the timing marker \<open>t_o/elap=\<close>
  makes \<open>parse_elapsed\<close> return \<open>-1\<close>, the value that stands for an absent elapsed
  time. The monitor, however, guards the anomaly test with the shorter marker
  \<open>elap=\<close>: a line without \<open>elap=\<close> is left alone by the line check (the state,
  history included, is unchanged), and every line that a pass examines contains
  \<open>elap=\<close>.
\<close>

theorem no_elap_no_check:
  "(strstr l ''t_o/elap='' = None \<longrightarrow> parse_elapsed l = - 1) \<and>
   (strstr l ''elap='' = None \<longrightarrow> check_line fs buf l st = Inr st) \<and>
   (monitor_pass fs feed st0 = Inr st' \<longrightarrow>
      (\<forall>x \<in> set (examined st'). x \<in> set (examined st0) \<or> strstr (fst x) ''elap='' \<noteq> None))"
  using monitor_pass_examined[of fs feed st0 st']
  by (auto simp: parse_elapsed_def check_line_def)

text \<open>
  The first line of \<open>quiet_feed\<close> has no timing field: it is not examined, the second
  line is.
\<close>

theorem no_elap_no_check_witness:
  "strstr ''sg0: dur=5ms op=0x08'' ''t_o/elap='' = None \<and>
   parse_elapsed ''sg0: dur=5ms op=0x08'' = - 1 \<and>
   strstr ''sg0: dur=5ms op=0x08'' ''elap='' = None \<and>
   check_line log_always_opens [] ''sg0: dur=5ms op=0x08'' initial_state = Inr initial_state \<and>
   monitor_pass log_always_opens (Some quiet_feed) initial_state =
     Inr (initial_state\<lparr>iteration := 1, console := [Usleep 100],
            examined := [(''sg1: t_o/elap=60000/50ms op=0x00'', 50)]\<rparr>) \<and>
   strstr ''sg1: t_o/elap=60000/50ms op=0x00'' ''elap='' \<noteq> None"
proof -
  have p: "monitor_pass log_always_opens (Some quiet_feed) initial_state =
     Inr (initial_state\<lparr>iteration := 1, console := [Usleep 100],
            examined := [(''sg1: t_o/elap=60000/50ms op=0x00'', 50)]\<rparr>)"
    by (simp add: quiet_feed_def eval_defs)
  have a: "strstr ''sg0: dur=5ms op=0x08'' ''t_o/elap='' = None" by simp
  have b: "strstr ''sg0: dur=5ms op=0x08'' ''elap='' = None" by simp
  from no_elap_no_check[of "''sg0: dur=5ms op=0x08''" log_always_opens "[]" initial_state
      "Some quiet_feed" initial_state
      "initial_state\<lparr>iteration := 1, console := [Usleep 100],
            examined := [(''sg1: t_o/elap=60000/50ms op=0x00'', 50)]\<rparr>"] a b p
  show ?thesis by (simp add: initial_state_def)
qed

text \<open>
  C2 as the spec states it fails: the line \<open>elap=5\<close> does not contain the timing
  marker and \<open>parse_elapsed\<close> returns \<open>-1\<close> for it, yet the monitor applies the
  anomaly test to it, and since \<open>-1 < 0\<close> counts, logs and reports an anomaly.
\<close>

theorem marker_free_line_checked:
  "strstr ''elap=5'' ''t_o/elap='' = None \<and> parse_elapsed ''elap=5'' = - 1 \<and>
   check_line log_always_opens [] ''elap=5'' initial_state =
     Inr (initial_state\<lparr>bugs_found := 1, found_bug := True, bug_elapsed := - 1,
            bug_opcode := ''??'',
            bug_log := [\<lparr>log_iteration = 0, log_elapsed = - 1, log_opcode = ''??'',
                          log_snapshot = []\<rparr>],
            console := [Bogus_report 0 (- 1) ''??'' ''elap=5''],
            examined := [(''elap=5'', - 1)]\<rparr>)"
  by (simp add: eval_defs)

subsection \<open>C3: the anomaly predicate\<close>

text \<open>
  Claim C3. For a line that reaches the anomaly test (it contains \<open>elap=\<close>), with
  \<open>e\<close> the value \<open>parse_elapsed\<close> returns: when \<open>0 \<le> e \<le> 10000\<close> the line is not
  flagged, the check only records that the line was examined; and whenever the check
  returns, it has counted one anomaly exactly when \<open>e < 0\<close> or \<open>e > 10000\<close>, and none
  exactly when \<open>e\<close> is in \<open>[0, 10000]\<close>. The check can only fail (in \<open>get_opcode\<close>)
  on a line that is flagged.
\<close>

theorem anomaly_iff_out_of_range:
  assumes "strstr l ''elap='' \<noteq> None"
  shows "(0 \<le> parse_elapsed l \<and> parse_elapsed l \<le> 10000 \<longrightarrow>
            check_line fs buf l st = Inr (st\<lparr>examined := examined st @ [(l, parse_elapsed l)]\<rparr>)) \<and>
         (\<forall>st'. check_line fs buf l st = Inr st' \<longrightarrow>
            (bugs_found st' = bugs_found st + 1 \<longleftrightarrow> parse_elapsed l < 0 \<or> 10000 < parse_elapsed l) \<and>
            (bugs_found st' = bugs_found st \<longleftrightarrow> 0 \<le> parse_elapsed l \<and> parse_elapsed l \<le> 10000)) \<and>
         (\<forall>err. check_line fs buf l st = Inl err \<longrightarrow> parse_elapsed l < 0 \<or> 10000 < parse_elapsed l)"
  using assms
  by (auto simp: check_line_def Let_def log_debug_snapshot_def split: if_splits sum.splits)

text \<open>
  Scenario B of the spec: 50 ms is not flagged. Scenario A: 15000 ms is flagged, counted
  and logged.
\<close>

theorem anomaly_iff_out_of_range_witness:
  "strstr ''sg1: t_o/elap=60000/50ms op=0x00'' ''elap='' \<noteq> None \<and>
   parse_elapsed ''sg1: t_o/elap=60000/50ms op=0x00'' = 50 \<and>
   check_line log_always_opens [] ''sg1: t_o/elap=60000/50ms op=0x00'' initial_state =
     Inr (initial_state\<lparr>examined := [(''sg1: t_o/elap=60000/50ms op=0x00'', 50)]\<rparr>) \<and>
   strstr ''sg0: op=0x0a t_o/elap=60000/15000ms'' ''elap='' \<noteq> None \<and>
   parse_elapsed ''sg0: op=0x0a t_o/elap=60000/15000ms'' = 15000 \<and>
   check_line log_always_opens [] ''sg0: op=0x0a t_o/elap=60000/15000ms'' initial_state =
     Inr (initial_state\<lparr>bugs_found := 1, found_bug := True, bug_elapsed := 15000,
            bug_opcode := ''0a'',
            bug_log := [\<lparr>log_iteration = 0, log_elapsed = 15000, log_opcode = ''0a'',
                          log_snapshot = []\<rparr>],
            console := [Bogus_report 0 15000 ''0a'' ''sg0: op=0x0a t_o/elap=60000/15000ms''],
            examined := [(''sg0: op=0x0a t_o/elap=60000/15000ms'', 15000)]\<rparr>)"
proof -
  have a: "strstr ''sg1: t_o/elap=60000/50ms op=0x00'' ''elap='' \<noteq> None" by simp
  have b: "parse_elapsed ''sg1: t_o/elap=60000/50ms op=0x00'' = 50" by (simp add: eval_defs)
  have c: "strstr ''sg0: op=0x0a t_o/elap=60000/15000ms'' ''elap='' \<noteq> None" by simp
  have d: "parse_elapsed ''sg0: op=0x0a t_o/elap=60000/15000ms'' = 15000"
    by (simp add: eval_defs)
  have e: "check_line log_always_opens [] ''sg0: op=0x0a t_o/elap=60000/15000ms'' initial_state =
     Inr (initial_state\<lparr>bugs_found := 1, found_bug := True, bug_elapsed := 15000,
            bug_opcode := ''0a'',
            bug_log := [\<lparr>log_iteration = 0, log_elapsed = 15000, log_opcode = ''0a'',
                          log_snapshot = []\<rparr>],
            console := [Bogus_report 0 15000 ''0a'' ''sg0: op=0x0a t_o/elap=60000/15000ms''],
            examined := [(''sg0: op=0x0a t_o/elap=60000/15000ms'', 15000)]\<rparr>)"
    by (simp add: eval_defs)
  from anomaly_iff_out_of_range[OF a, of log_always_opens "[]" initial_state]
    anomaly_iff_out_of_range[OF c, of log_always_opens "[]" initial_state] a b c d e
  show ?thesis by (simp add: initial_state_def)
qed

subsection \<open>C4: well-formed lines\<close>

text \<open>
  Claim C4, as amended. Take a line whose first \<open>t_o/elap=\<close> is followed by two
  integers in decimal notation that fit an \<open>int\<close>, separated by \<open>/\<close> and followed by
  \<open>ms\<close>; then \<open>parse_elapsed\<close> returns the second integer. Let the first \<open>op=0x\<close> of
  the line be followed by a nonempty run \<open>opc\<close> of lowercase hexadecimal digits that
  ends at the end of the line or at a character that is not one, and let the token that
  starts there (up to the next white space) have at most 7 characters, so that it fits the
  8 bytes of the caller's buffer; then \<open>get_opcode\<close> returns \<open>opc\<close>.
\<close>

theorem well_formed_line_parsed:
  assumes "line = pre1 @ ''t_o/elap='' @ show_int timeout @ ''/'' @ show_int elapsed @ ''ms'' @ post1"
    and "strstr pre1 ''t_o/elap='' = None"
    and "- (2 ^ 31) \<le> timeout" "timeout < 2 ^ 31" "- (2 ^ 31) \<le> elapsed" "elapsed < 2 ^ 31"
    and "line = pre2 @ ''op=0x'' @ opc @ post2"
    and "strstr pre2 ''op=0x'' = None"
    and "opc \<noteq> []" and "\<forall>c \<in> set opc. lower_hex c"
    and "post2 = [] \<or> \<not> lower_hex (hd post2)"
    and "length (takeWhile (\<lambda>c. \<not> isspace_c c) (opc @ post2)) \<le> 7"
  shows "parse_elapsed line = elapsed \<and> get_opcode 8 line = Inr opc"
proof
  show "parse_elapsed line = elapsed"
    unfolding assms(1) by (rule parse_elapsed_well_formed[OF assms(2-6)])
  show "get_opcode 8 line = Inr opc"
    unfolding assms(7) by (rule get_opcode_well_formed[OF assms(8-12)])
qed

text \<open>Scenario A of the spec: opcode \<open>0a\<close>, elapsed time 15000.\<close>

theorem well_formed_line_parsed_witness:
  "parse_elapsed ''sg0: op=0x0a t_o/elap=60000/15000ms sgat=0'' = 15000 \<and>
   get_opcode 8 ''sg0: op=0x0a t_o/elap=60000/15000ms sgat=0'' = Inr ''0a''"
proof -
  have a: "''sg0: op=0x0a t_o/elap=60000/15000ms sgat=0'' =
             ''sg0: op=0x0a '' @ ''t_o/elap='' @ show_int 60000 @ ''/'' @ show_int 15000 @
             ''ms'' @ '' sgat=0''"
    by (simp add: show_60000 show_15000)
  have b: "strstr ''sg0: op=0x0a '' ''t_o/elap='' = None" by simp
  have c: "''sg0: op=0x0a t_o/elap=60000/15000ms sgat=0'' =
             ''sg0: '' @ ''op=0x'' @ ''0a'' @ '' t_o/elap=60000/15000ms sgat=0''"
    by simp
  have d: "strstr ''sg0: '' ''op=0x'' = None" by simp
  have e: "\<forall>c \<in> set ''0a''. lower_hex c" by (simp add: lower_hex_def)
  have f: "'' t_o/elap=60000/15000ms sgat=0'' = [] \<or>
           \<not> lower_hex (hd '' t_o/elap=60000/15000ms sgat=0'')"
    by (simp add: lower_hex_def)
  have g: "length (takeWhile (\<lambda>c. \<not> isspace_c c) (''0a'' @ '' t_o/elap=60000/15000ms sgat=0'')) \<le> 7"
    by (simp add: isspace_c_def)
  show ?thesis
    by (rule well_formed_line_parsed[OF a b _ _ _ _ c d _ e f g]) simp_all
qed

text \<open>
  C4 as the spec states it fails. After \<open>op=0x\<close> in the first line the longest run of
  hexadecimal digits is \<open>0A\<close>, and \<open>get_opcode\<close> returns \<open>0\<close>: its loop ends the
  opcode at a capital letter. In the second line the run of hexadecimal digits has 16
  characters, and the \<open>%s\<close> of \<open>get_opcode\<close> writes them past the end of the 8-byte
  buffer.
\<close>

theorem uppercase_hex_digit_ends_opcode:
  "parse_elapsed ''op=0x0A t_o/elap=60000/50ms'' = 50 \<and>
   get_opcode 8 ''op=0x0A t_o/elap=60000/50ms'' = Inr ''0'' \<and>
   takeWhile isxdigit_c ''0A t_o/elap=60000/50ms'' = ''0A'' \<and>
   get_opcode 8 ''op=0x0123456789abcdef t_o/elap=60000/50ms'' = Inl Buffer_overflow"
  by (simp add: eval_defs isxdigit_c_def)

subsection \<open>C5: a malformed line\<close>

text \<open>
  Claim C5. On the line \<open>op=0xZZ t_o/elap=abc/ms\<close> both parser functions return:
  \<open>parse_elapsed\<close> the value \<open>-1\<close> that stands for an absent elapsed time,
  \<open>get_opcode\<close> the opcode cut at its first character, which is not a hexadecimal
  digit: the empty string.
\<close>

theorem scenario_D_malformed_line:
  "parse_elapsed ''op=0xZZ t_o/elap=abc/ms'' = - 1 \<and>
   get_opcode 8 ''op=0xZZ t_o/elap=abc/ms'' = Inr []"
  by (simp add: eval_defs)

subsection \<open>C6: the stop flag\<close>

text \<open>
  Claim C6. No step of any thread (signal handler, I/O worker, monitor pass, monitor
  exit, \<open>main\<close>) sets \<open>keep_running\<close> back: once it is 0 it is 0 after any number
  of steps.
\<close>

theorem stop_flag_never_reset:
  assumes "rtranclp (step fs) s s'" and "keep_running s = 0"
  shows "keep_running s' = 0"
  using assms by (induction rule: rtranclp_induct) (auto dest: step_keep_stopped)

text \<open>A monitor pass that runs after SIGINT was handled.\<close>

theorem stop_flag_never_reset_witness:
  "rtranclp (step log_always_opens) (cleanup 2 initial_state)
     (cleanup 2 initial_state\<lparr>console := [Perror_fopen, Sleep 1]\<rparr>) \<and>
   keep_running (cleanup 2 initial_state) = 0 \<and>
   keep_running (cleanup 2 initial_state\<lparr>console := [Perror_fopen, Sleep 1]\<rparr>) = 0"
proof -
  have p: "monitor_pass log_always_opens None (cleanup 2 initial_state) =
             Inr (cleanup 2 initial_state\<lparr>console := [Perror_fopen, Sleep 1]\<rparr>)"
    by (simp add: monitor_pass_def cleanup_def initial_state_def)
  have i: "iteration (cleanup 2 initial_state) < TEST_ITERATIONS"
    by (simp add: cleanup_def initial_state_def TEST_ITERATIONS_def)
  have r: "rtranclp (step log_always_opens) (cleanup 2 initial_state)
             (cleanup 2 initial_state\<lparr>console := [Perror_fopen, Sleep 1]\<rparr>)"
    by (rule r_into_rtranclp) (rule step.monitor_pass[OF i p])
  have k: "keep_running (cleanup 2 initial_state) = 0"
    by (simp add: cleanup_def)
  from r k stop_flag_never_reset[OF r k] show ?thesis by simp
qed

subsection \<open>C7: the exit status\<close>

text \<open>
  Claim C7. When \<open>main\<close> returns, the exit status is 0 if the anomaly counter is
  positive and not 0 otherwise. The counter is between 0 and \<open>2^31\<close>, so the C
  \<open>int\<close> it is kept in has not wrapped around.
\<close>

theorem exit_status_reports_anomalies:
  assumes "main env = Inr (status, st)"
  shows "(0 < bugs_found st \<longrightarrow> status = 0) \<and> (\<not> 0 < bugs_found st \<longrightarrow> status \<noteq> 0) \<and>
         0 \<le> bugs_found st \<and> bugs_found st < 2 ^ 31"
proof -
  from assms have "status = (if 0 < bugs_found st then 0 else 1)"
    by (auto simp: main_def Let_def initial_state_def split: if_splits sum.splits)
  with main_accounted[OF assms] main_counter_bound[OF assms] show ?thesis by simp
qed

text \<open>A run with an anomaly exits with 0, a run without exits with 1.\<close>

theorem exit_status_reports_anomalies_witness:
  "main logged_run = Inr (0, logged_run_final) \<and> 0 < bugs_found logged_run_final \<and>
   main quiet_run = Inr (1, quiet_run_final) \<and> bugs_found quiet_run_final = 0"
  using exit_status_reports_anomalies[OF main_logged_run]
    exit_status_reports_anomalies[OF main_quiet_run]
  by (simp add: main_logged_run main_quiet_run logged_run_final_def quiet_run_final_def)

subsection \<open>C8: a feed that cannot be opened\<close>

text \<open>
  Claim C8. When the feed cannot be opened in a pass that the loop enters, the pass
  reports the error, sleeps one second and ends without failure; \<open>iteration\<close>, the
  anomaly counter and the bug log are unchanged, and the loop goes on with the rest of the
  run from that state. Over a whole run of the loop, \<open>iteration\<close> grows by at most
  the number of passes in which the feed opened.
\<close>

theorem feed_unavailable_pass_not_counted:
  "(pass_feed e = None \<and> keep_running st \<noteq> 0 \<and> iteration st < TEST_ITERATIONS \<longrightarrow>
      (\<exists>st1. monitor_pass fs (pass_feed e) st = Inr st1 \<and>
           console st1 = console st @ [Perror_fopen, Sleep 1] \<and>
           iteration st1 = iteration st \<and> bugs_found st1 = bugs_found st \<and>
           bug_log st1 = bug_log st \<and>
           monitor_loop fs (e # es) st =
             monitor_loop fs es (if pass_signal e then cleanup 2 st1 else st1))) \<and>
   (monitor_loop fs script st = Inr st' \<longrightarrow>
      iteration st' \<le> iteration st + int (length (filter feed_opened script)))"
  using monitor_loop_iterations[of fs script st st'] by (simp add: monitor_pass_def)

text \<open>
  The feed does not open in the first pass and opens in the second, during which a signal
  arrives: one iteration was counted.
\<close>

theorem feed_unavailable_pass_not_counted_witness:
  "pass_feed \<lparr>pass_feed = None, pass_signal = False\<rparr> = None \<and>
   keep_running initial_state \<noteq> 0 \<and> iteration initial_state < TEST_ITERATIONS \<and>
   monitor_loop log_always_opens retry_script initial_state =
     Inr (initial_state\<lparr>keep_running := 0, iteration := 1,
            console := [Perror_fopen, Sleep 1, Usleep 100],
            examined := [(''sg1: t_o/elap=60000/50ms op=0x00'', 50)]\<rparr>) \<and>
   length (filter feed_opened retry_script) = 1"
proof -
  have a: "pass_feed \<lparr>pass_feed = None, pass_signal = False\<rparr> = None" by simp
  have b: "keep_running initial_state \<noteq> 0" by (simp add: initial_state_def)
  have c: "iteration initial_state < TEST_ITERATIONS"
    by (simp add: initial_state_def TEST_ITERATIONS_def)
  have r: "monitor_loop log_always_opens retry_script initial_state =
     Inr (initial_state\<lparr>keep_running := 0, iteration := 1,
            console := [Perror_fopen, Sleep 1, Usleep 100],
            examined := [(''sg1: t_o/elap=60000/50ms op=0x00'', 50)]\<rparr>)"
    by (simp add: retry_script_def quiet_feed_def eval_defs)
  from feed_unavailable_pass_not_counted[of "\<lparr>pass_feed = None, pass_signal = False\<rparr>"
      initial_state log_always_opens "[\<lparr>pass_feed = Some quiet_feed, pass_signal = True\<rparr>]"
      retry_script
      "initial_state\<lparr>keep_running := 0, iteration := 1,
            console := [Perror_fopen, Sleep 1, Usleep 100],
            examined := [(''sg1: t_o/elap=60000/50ms op=0x00'', 50)]\<rparr>"] a b c r
  show ?thesis by (simp add: retry_script_def feed_opened_def)
qed

subsection \<open>C9: long lines\<close>

text \<open>
  Claim C9. A line of 512 characters or more in the captured buffer is skipped: the scan
  goes on behind its newline with the state unchanged, and no line that a pass examines
  has 512 characters or more.
\<close>

theorem long_lines_skipped:
  "(line_ptr \<noteq> [] \<and> strchr line_ptr (CHR 0x0A) = Some n \<and> 512 \<le> n \<longrightarrow>
      scan_lines fs buf line_ptr st = scan_lines fs buf (drop (Suc n) line_ptr) st) \<and>
   (monitor_pass fs feed st0 = Inr st' \<longrightarrow>
      (\<forall>x \<in> set (examined st'). x \<in> set (examined st0) \<or> length (fst x) < 512))"
proof (intro conjI impI)
  assume "line_ptr \<noteq> [] \<and> strchr line_ptr (CHR 0x0A) = Some n \<and> 512 \<le> n"
  then show "scan_lines fs buf line_ptr st = scan_lines fs buf (drop (Suc n) line_ptr) st"
    by simp
next
  assume "monitor_pass fs feed st0 = Inr st'"
  then show "\<forall>x \<in> set (examined st'). x \<in> set (examined st0) \<or> length (fst x) < 512"
    using monitor_pass_examined by blast
qed

text \<open>
  The first line of \<open>long_line_feed\<close> has 512 characters and contains \<open>elap=\<close>
  without a number, so it would be flagged if it were checked. It is not.
\<close>

theorem long_lines_skipped_witness:
  "strchr long_line_feed (CHR 0x0A) = Some 512 \<and>
   scan_lines log_always_opens long_line_feed long_line_feed initial_state =
     Inr (initial_state\<lparr>examined := [(''sg1: t_o/elap=60000/50ms op=0x00'', 50)]\<rparr>) \<and>
   monitor_pass log_always_opens (Some long_line_feed) initial_state =
     Inr (initial_state\<lparr>iteration := 1, console := [Usleep 100],
            examined := [(''sg1: t_o/elap=60000/50ms op=0x00'', 50)]\<rparr>)"
proof -
  have nl: "CHR 0x0A \<notin> set long_line" by (simp add: long_line_def)
  have len: "length long_line = 512" by (simp add: long_line_def)
  have feed: "long_line_feed = long_line @ CHR 0x0A # ''sg1: t_o/elap=60000/50ms op=0x00'' @ [CHR 0x0A]"
    by (simp add: long_line_feed_def)
  have a: "strchr long_line_feed (CHR 0x0A) = Some 512"
    using strchr_append[OF nl] by (simp add: feed len)
  have ne: "long_line_feed \<noteq> []" by (simp add: feed)
  have d: "drop (Suc 512) long_line_feed = ''sg1: t_o/elap=60000/50ms op=0x00'' @ [CHR 0x0A]"
    by (simp add: feed len)
  have cap: "capture long_line_feed = long_line_feed"
    by (rule capture_whole) (simp_all add: long_line_feed_def long_line_def)
  have "scan_lines log_always_opens long_line_feed long_line_feed initial_state =
          scan_lines log_always_opens long_line_feed (drop (Suc 512) long_line_feed) initial_state"
    using long_lines_skipped[of long_line_feed 512 log_always_opens long_line_feed initial_state]
      ne a by simp
  also have "\<dots> = Inr (initial_state\<lparr>examined := [(''sg1: t_o/elap=60000/50ms op=0x00'', 50)]\<rparr>)"
    unfolding d by (simp add: eval_defs)
  finally have s: "scan_lines log_always_opens long_line_feed long_line_feed initial_state =
     Inr (initial_state\<lparr>examined := [(''sg1: t_o/elap=60000/50ms op=0x00'', 50)]\<rparr>)" .
  have "monitor_pass log_always_opens (Some long_line_feed) initial_state =
     Inr (initial_state\<lparr>iteration := 1, console := [Usleep 100],
            examined := [(''sg1: t_o/elap=60000/50ms op=0x00'', 50)]\<rparr>)"
    using s by (simp add: monitor_pass_def cap initial_state_def)
  with a s show ?thesis by simp
qed

subsection \<open>C10: the capture buffer\<close>

text \<open>
  Claim C10, as amended. A pass captures at most 65534 bytes of the feed, not
  \<open>65536 - 512\<close>: reading stops once \<open>65536 - 512 = 65024\<close> bytes or more are in the
  buffer, and the chunk of up to 511 bytes that crosses this mark is still stored. What
  is captured is a prefix of the feed (when the feed has no NUL byte), so the feed beyond
  it is dropped. Every line a pass examines is a newline-terminated part of the captured
  buffer, and two feeds with the same capture give the same pass.
\<close>

theorem capture_ceiling:
  "length (capture feed) \<le> 65534 \<and>
   (65024 \<le> length buf \<longrightarrow> capture_loop rest buf = buf) \<and>
   (CHR 0x00 \<notin> set feed \<longrightarrow> prefix (capture feed) feed) \<and>
   (monitor_pass fs (Some feed) st = Inr st' \<and> x \<in> set (examined st') \<longrightarrow>
      x \<in> set (examined st) \<or> (\<exists>pre post. capture feed = pre @ fst x @ CHR 0x0A # post)) \<and>
   (capture feed1 = capture feed2 \<longrightarrow>
      monitor_pass fs (Some feed1) st = monitor_pass fs (Some feed2) st)"
proof (intro conjI impI)
  show "length (capture feed) \<le> 65534"
    using capture_loop_length[of feed "[]"] by (simp add: capture_def)
next
  assume "65024 \<le> length buf"
  then show "capture_loop rest buf = buf"
    by (subst capture_loop.simps) (simp split: option.splits)
next
  assume "CHR 0x00 \<notin> set feed"
  then show "prefix (capture feed) feed" by (rule capture_prefix)
next
  assume "monitor_pass fs (Some feed) st = Inr st' \<and> x \<in> set (examined st')"
  then show "x \<in> set (examined st) \<or> (\<exists>pre post. capture feed = pre @ fst x @ CHR 0x0A # post)"
    using monitor_pass_examined_from_buffer by blast
next
  assume "capture feed1 = capture feed2"
  then show "monitor_pass fs (Some feed1) st = monitor_pass fs (Some feed2) st"
    by (simp add: monitor_pass_def)
qed

text \<open>
  The feed \<open>quiet_feed\<close> is captured whole, and its second line is examined; and
  nothing is added to a buffer that already holds 65024 bytes.
\<close>

theorem capture_ceiling_witness:
  "CHR 0x00 \<notin> set quiet_feed \<and> capture quiet_feed = quiet_feed \<and>
   prefix (capture quiet_feed) quiet_feed \<and> length (capture quiet_feed) = 54 \<and>
   monitor_pass log_always_opens (Some quiet_feed) initial_state =
     Inr (initial_state\<lparr>iteration := 1, console := [Usleep 100],
            examined := [(''sg1: t_o/elap=60000/50ms op=0x00'', 50)]\<rparr>) \<and>
   capture quiet_feed =
     (''sg0: dur=5ms op=0x08'' @ [CHR 0x0A]) @ ''sg1: t_o/elap=60000/50ms op=0x00'' @
       CHR 0x0A # [] \<and>
   65024 \<le> length (replicate 65024 (CHR ''a'')) \<and>
   capture_loop ''sg2: dur=1ms'' (replicate 65024 (CHR ''a'')) = replicate 65024 (CHR ''a'')"
proof -
  have a: "CHR 0x00 \<notin> set quiet_feed" by (simp add: quiet_feed_def)
  have c: "capture quiet_feed = quiet_feed"
    by (rule capture_whole) (simp_all add: quiet_feed_def)
  have p: "monitor_pass log_always_opens (Some quiet_feed) initial_state =
     Inr (initial_state\<lparr>iteration := 1, console := [Usleep 100],
            examined := [(''sg1: t_o/elap=60000/50ms op=0x00'', 50)]\<rparr>)"
    by (simp add: quiet_feed_def eval_defs)
  have l: "65024 \<le> length (replicate 65024 (CHR ''a''))" by simp
  from capture_ceiling[of quiet_feed "replicate 65024 (CHR ''a'')" "''sg2: dur=1ms''"
      log_always_opens initial_state] a c p l
  show ?thesis by (simp add: quiet_feed_def)
qed

text \<open>
  C10 as stated fails: of a feed of 65408 bytes without newline, all 65408 bytes are
  captured, more than \<open>65536 - 512\<close>.
\<close>

theorem capture_exceeds_65024:
  "length (capture (replicate 65408 (CHR ''a''))) = 65408 \<and>
   (65536 :: nat) - 512 < length (capture (replicate 65408 (CHR ''a'')))"
  using capture_loop_chunks[of "CHR ''a''" "[]" 128] by (simp add: capture_def)

end
